theory Spec2Isabelle
  imports Main "HOL-Library.Multiset"
begin

section \<open>Constants of the analyzer package\<close>

text \<open>
  The repository holds two revisions of the network code of package \<open>analyzer\<close>:
  \<^item> \<open>internal/analyzer/network.go\<close>: one goroutine per link, joined through a wait group;
  \<^item> \<open>unnamed/part_000\<close>: a pool of at most \<open>numWorkers\<close> workers reading a jobs channel,
    and a \<open>loadWebPage\<close> that turns an exhausted retry budget into an error.
  The probe \<open>linkAccessibilityChecker\<close> has the same loop in both. Definitions taken from
  \<open>network.go\<close> keep the source's names; those of \<open>part_000\<close> that differ carry the
  suffix \<open>2\<close>.

  Durations are \<open>time.Duration\<close> values, nanoseconds in an \<open>int64\<close>; the model uses \<open>int\<close>
  and shows below that every backoff the probe sleeps, and its double, which the probe
  computes next, lies inside the \<open>int64\<close> range.
  Log calls write to the logger only and are left out.
\<close>

definition maxRetries :: nat where
  "maxRetries = 3"

definition second :: int where
  "second = 1000000000"

definition initialBackoff :: int where
  "initialBackoff = 1 * second"

definition numWorkers :: nat where
  "numWorkers = 10"

section \<open>The network and the context\<close>

text \<open>
  A context is known to the code only through the requests built on it. It is modelled by
  the instant of its cancellation, if any: \<open>None\<close> is \<open>context.Background()\<close>, which is
  never cancelled. A request carried out on a context that is done returns the context's
  error (net/http, \<open>Client.Do\<close>); a request takes no time of its own in the model, so
  the clock of a probe advances in its sleeps only.
\<close>

type_synonym cancelCtx = "int option"

definition ctxDone :: "cancelCtx \<Rightarrow> int \<Rightarrow> bool" where
  "ctxDone ctx now = (case ctx of None \<Rightarrow> False | Some c \<Rightarrow> c \<le> now)"

text \<open>What \<open>client.Do\<close> gives back: an error, or a response with its status code.\<close>

datatype reply = ConnError | Status int

text \<open>
  The world outside: which URL strings \<open>http.NewRequestWithContext\<close> refuses, and what the
  server of a URL answers to the \<open>i\<close>-th request of a probe when the request reaches it.
\<close>

record net =
  malformed :: "string \<Rightarrow> bool"
  respond :: "string \<Rightarrow> nat \<Rightarrow> reply"

definition newRequestWithContext :: "net \<Rightarrow> string \<Rightarrow> string option" where
  "newRequestWithContext nt url = (if malformed nt url then None else Some url)"

definition clientDo :: "cancelCtx \<Rightarrow> net \<Rightarrow> int \<Rightarrow> string \<Rightarrow> nat \<Rightarrow> reply" where
  "clientDo ctx nt now req i = (if ctxDone ctx now then ConnError else respond nt req i)"

section \<open>The probe: linkAccessibilityChecker\<close>

text \<open>
  The effects of a probe, in the order it performs them: \<open>Do n\<close> is the call of
  \<open>client.Do\<close> of attempt \<open>n\<close> (counted from 1, as the source's \<open>attempt\<close>), \<open>Sleep d\<close> is
  \<open>time.Sleep(d)\<close>, \<open>Send u\<close> is \<open>inaccessibleLinks <- u\<close>.
\<close>

datatype effect = Do nat | Sleep int | Send string

function checkLoop :: "cancelCtx \<Rightarrow> net \<Rightarrow> string \<Rightarrow> nat \<Rightarrow> int \<Rightarrow> int \<Rightarrow> effect list" where
  "checkLoop ctx nt url i backoff now =
     (if i < maxRetries then
        (case newRequestWithContext nt url of
           None \<Rightarrow> [Send url]
         | Some req \<Rightarrow>
             (case clientDo ctx nt now req i of
                ConnError \<Rightarrow>
                  Do (Suc i) # Sleep backoff #
                    checkLoop ctx nt url (Suc i) (backoff * 2) (now + backoff)
              | Status c \<Rightarrow>
                  if 200 \<le> c \<and> c < 300 then [Do (Suc i)]
                  else Do (Suc i) # Sleep backoff #
                    checkLoop ctx nt url (Suc i) (backoff * 2) (now + backoff)))
      else [Send url])"
  by pat_completeness auto
termination
  by (relation "measure (\<lambda>(ctx, nt, url, i, backoff, now). maxRetries - i)") auto

declare checkLoop.simps [simp del]

definition linkAccessibilityChecker :: "cancelCtx \<Rightarrow> net \<Rightarrow> string \<Rightarrow> int \<Rightarrow> effect list" where
  "linkAccessibilityChecker ctx nt url now = checkLoop ctx nt url 0 initialBackoff now"

text \<open>What a trace shows: the requests made, the sleeps taken, the URLs reported.\<close>

fun isDo :: "effect \<Rightarrow> bool" where
  "isDo (Do n) = True"
| "isDo e = False"

fun sleeps :: "effect list \<Rightarrow> int list" where
  "sleeps [] = []"
| "sleeps (Sleep d # es) = d # sleeps es"
| "sleeps (e # es) = sleeps es"

fun sends :: "effect list \<Rightarrow> string list" where
  "sends [] = []"
| "sends (Send u # es) = u # sends es"
| "sends (e # es) = sends es"

definition attempts :: "effect list \<Rightarrow> nat" where
  "attempts es = length (filter isDo es)"

text \<open>The verdict of a probe: \<open>Inaccessible\<close> is to have reported the URL.\<close>

definition inaccessible :: "effect list \<Rightarrow> bool" where
  "inaccessible es = (sends es \<noteq> [])"

text \<open>The source's test of a status code, \<open>resp.StatusCode >= 200 && resp.StatusCode < 300\<close>.\<close>

definition success :: "reply \<Rightarrow> bool" where
  "success r = (case r of ConnError \<Rightarrow> False | Status c \<Rightarrow> 200 \<le> c \<and> c < 300)"

section \<open>Loading the page: loadWebPage\<close>

text \<open>
  \<open>http.Get\<close> returns a response, an error, or both (a failed redirect check); never
  neither. A response is its status code.
\<close>

datatype error = NetError string | AccessDenied int

datatype getResult = Resp int | Fail error | RespFail int error

fun dataOf :: "getResult \<Rightarrow> int option" where
  "dataOf (Resp c) = Some c"
| "dataOf (Fail e) = None"
| "dataOf (RespFail c e) = Some c"

fun errOf :: "getResult \<Rightarrow> error option" where
  "errOf (Resp c) = None"
| "errOf (Fail e) = Some e"
| "errOf (RespFail c e) = Some e"

text \<open>
  The result of \<open>loadWebPage\<close>: the two values it returns and the sleeps it took.
  The factor \<open>math.Pow(2, float64(i))\<close> is exact for the \<open>i < 2\<close> at which it is computed.
\<close>

record loaded =
  response :: "int option"
  err :: "error option"
  slept :: "int list"

definition fetched :: "int option \<Rightarrow> error option \<Rightarrow> bool" where
  "fetched d e = (case (d, e) of (Some c, None) \<Rightarrow> 200 \<le> c \<and> c < 300 | _ \<Rightarrow> False)"

function loadLoop ::
  "(int option \<Rightarrow> error option \<Rightarrow> int list \<Rightarrow> loaded) \<Rightarrow> (nat \<Rightarrow> getResult) \<Rightarrow>
     nat \<Rightarrow> int option \<Rightarrow> error option \<Rightarrow> int list \<Rightarrow> loaded" where
  "loadLoop giveUp get i d e sl =
     (if i < maxRetries then
        (let d' = dataOf (get i); e' = errOf (get i) in
         if fetched d' e' then \<lparr>response = d', err = None, slept = sl\<rparr>
         else if i < maxRetries - 1
           then loadLoop giveUp get (Suc i) d' e' (sl @ [initialBackoff * 2 ^ i])
           else loadLoop giveUp get (Suc i) d' e' sl)
      else giveUp d e sl)"
  by pat_completeness auto
termination
  by (relation "measure (\<lambda>(giveUp, get, i, d, e, sl). maxRetries - i)") auto

declare loadLoop.simps [simp del]

text \<open>\<open>network.go\<close>: after the loop, \<open>return nil, err\<close>.\<close>

definition giveUp :: "int option \<Rightarrow> error option \<Rightarrow> int list \<Rightarrow> loaded" where
  "giveUp d e sl = \<lparr>response = None, err = e, slept = sl\<rparr>"

definition loadWebPage :: "(nat \<Rightarrow> getResult) \<Rightarrow> loaded" where
  "loadWebPage get = loadLoop giveUp get 0 None None []"

text \<open>
  \<open>part_000\<close>: after the loop, a response without an error becomes the error
  \<open>access denied to the page\<close>.
\<close>

definition giveUp2 :: "int option \<Rightarrow> error option \<Rightarrow> int list \<Rightarrow> loaded" where
  "giveUp2 d e sl =
     (case (d, e) of
        (Some c, None) \<Rightarrow> \<lparr>response = None, err = Some (AccessDenied c), slept = sl\<rparr>
      | _ \<Rightarrow> \<lparr>response = None, err = e, slept = sl\<rparr>)"

definition loadWebPage2 :: "(nat \<Rightarrow> getResult) \<Rightarrow> loaded" where
  "loadWebPage2 get = loadLoop giveUp2 get 0 None None []"

section \<open>The validator: validateLinkAccessibility\<close>

record LinkAnalysis =
  InternalLinks :: "string list"
  ExternalLinks :: "string list"

text \<open>
  What a call of the validator gives back: the slice of failed links, the error, and the
  number of \<open>go\<close> statements the call has executed.
\<close>

record validated =
  links :: "string list"
  verr :: "error option"
  spawned :: nat

subsection \<open>network.go: one goroutine per link\<close>

text \<open>
  The state of a call while its goroutines run: for each goroutine the effects its probe
  has still to perform (\<open>None\<close> once the deferred \<open>wg.Done()\<close> has run), the buffer of the
  channel \<open>inaccessibleLinks\<close> with its capacity, and the history of the sends into it.
  A send into a full buffer blocks: the goroutine does not move.
\<close>

record fanout =
  checkers :: "effect list option list"
  buffer :: "string list"
  bufferCap :: nat
  history :: "string list"

definition start :: "cancelCtx \<Rightarrow> net \<Rightarrow> string list \<Rightarrow> int \<Rightarrow> fanout" where
  "start ctx nt pageLinks now =
     \<lparr>checkers = map (\<lambda>link. Some (linkAccessibilityChecker ctx nt link now)) pageLinks,
      buffer = [], bufferCap = length pageLinks, history = []\<rparr>"

fun advance :: "effect list option \<Rightarrow> fanout \<Rightarrow> effect list option \<times> fanout" where
  "advance None s = (None, s)"
| "advance (Some []) s = (None, s)"
| "advance (Some (Send u # es)) s =
     (if length (buffer s) < bufferCap s
      then (Some es, s\<lparr>buffer := buffer s @ [u], history := history s @ [u]\<rparr>)
      else (Some (Send u # es), s))"
| "advance (Some (e # es)) s = (Some es, s)"

definition goroutine :: "nat \<Rightarrow> fanout \<Rightarrow> fanout" where
  "goroutine j s =
     (if j < length (checkers s) then
        (case advance (checkers s ! j) s of
           (g, s') \<Rightarrow> s'\<lparr>checkers := (checkers s')[j := g]\<rparr>)
      else s)"

fun run :: "nat list \<Rightarrow> fanout \<Rightarrow> fanout" where
  "run [] s = s"
| "run (j # js) s = run js (goroutine j s)"

text \<open>\<open>wg.Wait()\<close> returns when every goroutine has called \<open>wg.Done()\<close>.\<close>

definition joined :: "fanout \<Rightarrow> bool" where
  "joined s = list_all Option.is_none (checkers s)"

text \<open>
  The call under a schedule, the order in which the goroutines take their steps. The
  result is \<open>None\<close> when the schedule ends while \<open>wg.Wait()\<close> still blocks. After the wait
  the channel is closed and read until empty.
\<close>

definition validateLinkAccessibility ::
  "cancelCtx \<Rightarrow> net \<Rightarrow> LinkAnalysis \<Rightarrow> int \<Rightarrow> nat list \<Rightarrow> validated option" where
  "validateLinkAccessibility ctx nt analysis now sched =
     (let pageLinks = InternalLinks analysis @ ExternalLinks analysis in
      if length pageLinks = 0 then Some \<lparr>links = [], verr = None, spawned = 0\<rparr>
      else
        (let s = run sched (start ctx nt pageLinks now) in
         if joined s
         then Some \<lparr>links = buffer s, verr = None, spawned = length (checkers s)\<rparr>
         else None))"

subsection \<open>part_000: a pool of workers\<close>

text \<open>
  A worker is between two jobs (at \<open>range jobs\<close>), inside a probe with the effects it has
  still to perform, or has left its loop and called \<open>wg.Done()\<close>. It carries its clock.
\<close>

datatype worker = Idle int | Busy int "effect list" | Exited

text \<open>
  The main goroutine, after it has started the workers: it sends the links into \<open>jobs\<close>
  (\<open>Enqueue\<close>, with the links still to send; \<open>close(jobs)\<close> follows the last), starts the
  goroutine that waits for the workers and closes \<open>inaccessibleLinks\<close>, reads that channel
  until it is closed and empty, and returns.
\<close>

datatype mainpc = Enqueue "string list" | SpawnCloser | Drain | Returned

datatype actor = Main | Worker nat | Closer

text \<open>
  The state of a call: the two channels with their buffers, capacities and closed flags,
  the workers, the slice \<open>failedLinks\<close> main has read so far, and two histories that the
  code does not keep: the URLs sent into \<open>inaccessibleLinks\<close>, in the order of the sends,
  and the probes started, each with its URL and the instant of its start.
\<close>

record pool =
  pc :: mainpc
  jobs :: "string list"
  jobsCap :: nat
  jobsClosed :: bool
  workers :: "worker list"
  closerSpawned :: bool
  inaccessibleLinks :: "string list"
  linksCap :: nat
  linksClosed :: bool
  failedLinks :: "string list"
  sent :: "string list"
  started :: "(string \<times> int) list"

definition start2 :: "string list \<Rightarrow> int \<Rightarrow> pool" where
  "start2 pageLinks now =
     (let totalLinks = length pageLinks in
      \<lparr>pc = Enqueue pageLinks,
       jobs = [], jobsCap = totalLinks, jobsClosed = False,
       workers =
         (if totalLinks < numWorkers then replicate totalLinks (Idle now)
          else replicate numWorkers (Idle now)),
       closerSpawned = False,
       inaccessibleLinks = [], linksCap = totalLinks, linksClosed = False,
       failedLinks = [], sent = [], started = []\<rparr>)"

fun mainStep :: "mainpc \<Rightarrow> pool \<Rightarrow> pool" where
  "mainStep (Enqueue (l # ls)) s =
     (if length (jobs s) < jobsCap s then s\<lparr>jobs := jobs s @ [l], pc := Enqueue ls\<rparr> else s)"
| "mainStep (Enqueue []) s = s\<lparr>jobsClosed := True, pc := SpawnCloser\<rparr>"
| "mainStep SpawnCloser s = s\<lparr>closerSpawned := True, pc := Drain\<rparr>"
| "mainStep Drain s =
     (case inaccessibleLinks s of
        l # ls \<Rightarrow> s\<lparr>inaccessibleLinks := ls, failedLinks := failedLinks s @ [l]\<rparr>
      | [] \<Rightarrow> if linksClosed s then s\<lparr>pc := Returned\<rparr> else s)"
| "mainStep Returned s = s"

definition allExited :: "pool \<Rightarrow> bool" where
  "allExited s = list_all (\<lambda>w. w = Exited) (workers s)"

definition closerStep :: "pool \<Rightarrow> pool" where
  "closerStep s =
     (if closerSpawned s \<and> \<not> linksClosed s \<and> allExited s then s\<lparr>linksClosed := True\<rparr> else s)"

fun linkAccessibilityCheckWorker :: "cancelCtx \<Rightarrow> net \<Rightarrow> worker \<Rightarrow> pool \<Rightarrow> worker \<times> pool" where
  "linkAccessibilityCheckWorker ctx nt (Idle t) s =
     (case jobs s of
        url # us \<Rightarrow>
          (Busy t (linkAccessibilityChecker ctx nt url t),
           s\<lparr>jobs := us, started := started s @ [(url, t)]\<rparr>)
      | [] \<Rightarrow> if jobsClosed s then (Exited, s) else (Idle t, s))"
| "linkAccessibilityCheckWorker ctx nt (Busy t []) s = (Idle t, s)"
| "linkAccessibilityCheckWorker ctx nt (Busy t (Do n # es)) s = (Busy t es, s)"
| "linkAccessibilityCheckWorker ctx nt (Busy t (Sleep d # es)) s = (Busy (t + d) es, s)"
| "linkAccessibilityCheckWorker ctx nt (Busy t (Send u # es)) s =
     (if length (inaccessibleLinks s) < linksCap s
      then (Busy t es, s\<lparr>inaccessibleLinks := inaccessibleLinks s @ [u], sent := sent s @ [u]\<rparr>)
      else (Busy t (Send u # es), s))"
| "linkAccessibilityCheckWorker ctx nt Exited s = (Exited, s)"

fun step :: "cancelCtx \<Rightarrow> net \<Rightarrow> actor \<Rightarrow> pool \<Rightarrow> pool" where
  "step ctx nt Main s = mainStep (pc s) s"
| "step ctx nt Closer s = closerStep s"
| "step ctx nt (Worker w) s =
     (if w < length (workers s) then
        (case linkAccessibilityCheckWorker ctx nt (workers s ! w) s of
           (w', s') \<Rightarrow> s'\<lparr>workers := (workers s')[w := w']\<rparr>)
      else s)"

fun run2 :: "cancelCtx \<Rightarrow> net \<Rightarrow> actor list \<Rightarrow> pool \<Rightarrow> pool" where
  "run2 ctx nt [] s = s"
| "run2 ctx nt (a # as) s = run2 ctx nt as (step ctx nt a s)"

text \<open>
  The call under a schedule of its goroutines; \<open>None\<close> when the schedule ends before the
  main goroutine has returned.
\<close>

definition validateLinkAccessibility2 ::
  "cancelCtx \<Rightarrow> net \<Rightarrow> LinkAnalysis \<Rightarrow> int \<Rightarrow> actor list \<Rightarrow> validated option" where
  "validateLinkAccessibility2 ctx nt analysis now sched =
     (let pageLinks = InternalLinks analysis @ ExternalLinks analysis in
      if length pageLinks = 0 then Some \<lparr>links = [], verr = None, spawned = 0\<rparr>
      else
        (let s = run2 ctx nt sched (start2 pageLinks now) in
         if pc s = Returned
         then Some \<lparr>links = failedLinks s, verr = None,
                spawned = length (workers s) + (if closerSpawned s then 1 else 0)\<rparr>
         else None))"

section \<open>Reference traces and the worlds of the tests\<close>

text \<open>The trace of a probe all of whose attempts fail.\<close>

definition failTrace :: "string \<Rightarrow> effect list" where
  "failTrace url =
     [Do 1, Sleep (1 * second), Do 2, Sleep (2 * second), Do 3, Sleep (4 * second), Send url]"

text \<open>
  The servers of the package's tests: \<open>A\<close> always answers 200, \<open>B\<close> always 500, \<open>D\<close> answers
  503 to the first request and 200 from then on, every other host refuses the connection;
  the URL of the test \<open>InvalidURL\<close> cannot be made into a request.
\<close>

definition testNet :: net where
  "testNet =
     \<lparr>malformed = (\<lambda>u. u = ''ht tp://invalid-url''),
      respond = (\<lambda>u i.
        if u = ''A'' then Status 200
        else if u = ''B'' then Status 500
        else if u = ''D'' then (if i = 0 then Status 503 else Status 200)
        else ConnError)\<rparr>"

text \<open>A page whose server answers every \<open>http.Get\<close> with status 500.\<close>

definition always500 :: "nat \<Rightarrow> getResult" where
  "always500 i = Resp 500"

section \<open>Notions of the proofs\<close>

subsection \<open>One goroutine per link\<close>

text \<open>
  What a goroutine has still to do, the URLs its probes have still to send, the URLs all the
  probes of a call send, the invariant of a run, and the work left in a state.
\<close>

fun rest :: "effect list option \<Rightarrow> effect list" where
  "rest None = []"
| "rest (Some es) = es"

definition unsent :: "fanout \<Rightarrow> string list" where
  "unsent s = concat (map (\<lambda>g. sends (rest g)) (checkers s))"

definition reports :: "cancelCtx \<Rightarrow> net \<Rightarrow> int \<Rightarrow> string list \<Rightarrow> string list" where
  "reports ctx nt now pageLinks =
     concat (map (\<lambda>url. sends (linkAccessibilityChecker ctx nt url now)) pageLinks)"

definition inv1 :: "cancelCtx \<Rightarrow> net \<Rightarrow> string list \<Rightarrow> int \<Rightarrow> fanout \<Rightarrow> bool" where
  "inv1 ctx nt pageLinks now s =
     (length (checkers s) = length pageLinks \<and> bufferCap s = length pageLinks \<and>
      buffer s = history s \<and>
      mset (history s @ unsent s) = mset (reports ctx nt now pageLinks))"

fun rank :: "effect list option \<Rightarrow> nat" where
  "rank None = 0"
| "rank (Some es) = Suc (length es)"

definition work :: "fanout \<Rightarrow> nat" where
  "work s = sum_list (map rank (checkers s))"

subsection \<open>The pool of workers\<close>

text \<open>
  What a worker has still to do in its probe, the URLs the probes under way have still to
  send, the links main has still to enqueue, the URLs that the probes started so far send
  in all, and the invariant of a run in three parts: the shape of the state, the flow of
  the URLs, and the clocks.
\<close>

fun todo :: "worker \<Rightarrow> effect list" where
  "todo (Busy t es) = es"
| "todo w = []"

definition unsent2 :: "pool \<Rightarrow> string list" where
  "unsent2 s = concat (map (\<lambda>w. sends (todo w)) (workers s))"

fun remaining :: "mainpc \<Rightarrow> string list" where
  "remaining (Enqueue ls) = ls"
| "remaining p = []"

fun enqueuing :: "mainpc \<Rightarrow> bool" where
  "enqueuing (Enqueue ls) = True"
| "enqueuing p = False"

definition reports2 :: "cancelCtx \<Rightarrow> net \<Rightarrow> (string \<times> int) list \<Rightarrow> string list" where
  "reports2 ctx nt probes =
     concat (map (\<lambda>(url, t). sends (linkAccessibilityChecker ctx nt url t)) probes)"

fun clockOK :: "int \<Rightarrow> worker \<Rightarrow> bool" where
  "clockOK now (Idle t) = (now \<le> t)"
| "clockOK now (Busy t es) = (now \<le> t \<and> list_all (\<lambda>d. 0 \<le> d) (sleeps es))"
| "clockOK now Exited = True"

definition invShape :: "string list \<Rightarrow> pool \<Rightarrow> bool" where
  "invShape pageLinks s =
     (jobsCap s = length pageLinks \<and> linksCap s = length pageLinks \<and>
      length (workers s) = min numWorkers (length pageLinks) \<and>
      jobsClosed s = (\<not> enqueuing (pc s)) \<and>
      closerSpawned s = (pc s = Drain \<or> pc s = Returned) \<and>
      (linksClosed s \<longrightarrow> closerSpawned s \<and> allExited s) \<and>
      (Exited \<in> set (workers s) \<longrightarrow> jobs s = [] \<and> jobsClosed s) \<and>
      (pc s = Returned \<longrightarrow> linksClosed s \<and> inaccessibleLinks s = []))"

definition invFlow :: "cancelCtx \<Rightarrow> net \<Rightarrow> string list \<Rightarrow> pool \<Rightarrow> bool" where
  "invFlow ctx nt pageLinks s =
     (failedLinks s @ inaccessibleLinks s = sent s \<and>
      map fst (started s) @ jobs s @ remaining (pc s) = pageLinks \<and>
      mset (sent s @ unsent2 s) = mset (reports2 ctx nt (started s)))"

definition invClock :: "int \<Rightarrow> pool \<Rightarrow> bool" where
  "invClock now s =
     (list_all (clockOK now) (workers s) \<and> list_all (\<lambda>(url, t). now \<le> t) (started s))"

definition inv2 :: "cancelCtx \<Rightarrow> net \<Rightarrow> string list \<Rightarrow> int \<Rightarrow> pool \<Rightarrow> bool" where
  "inv2 ctx nt pageLinks now s =
     (invShape pageLinks s \<and> invFlow ctx nt pageLinks s \<and> invClock now s)"

text \<open>The work left in a state of the pool: every step that is not blocked lowers it.\<close>

fun rank2 :: "worker \<Rightarrow> nat" where
  "rank2 (Idle t) = 1"
| "rank2 (Busy t es) = 2 + 2 * length es"
| "rank2 Exited = 0"

fun pcRank :: "mainpc \<Rightarrow> nat" where
  "pcRank (Enqueue ls) = 3 + 18 * length ls"
| "pcRank SpawnCloser = 2"
| "pcRank Drain = 1"
| "pcRank Returned = 0"

definition work2 :: "pool \<Rightarrow> nat" where
  "work2 s =
     pcRank (pc s) + 17 * length (jobs s) + sum_list (map rank2 (workers s)) +
     length (inaccessibleLinks s) + (if linksClosed s then 0 else 1)"

section \<open>The calls of the tests\<close>

text \<open>
  The links of the spec's example, two schedules under which the probe of \<open>C\<close> reports
  before the probe of \<open>B\<close>, a page with eleven links, and a page with none.
\<close>

definition testAnalysis :: LinkAnalysis where
  "testAnalysis = \<lparr>InternalLinks = [''A'', ''B''], ExternalLinks = [''C'']\<rparr>"

definition testSchedule :: "nat list" where
  "testSchedule = replicate 2 0 @ replicate 8 2 @ replicate 8 1"

definition testSchedule2 :: "actor list" where
  "testSchedule2 =
     replicate 5 Main @ replicate 3 (Worker 0) @ [Worker 1] @ replicate 9 (Worker 2) @
     replicate 8 (Worker 1) @ [Main, Worker 0, Worker 1, Worker 2, Closer, Main, Main]"

definition elevenLinks :: LinkAnalysis where
  "elevenLinks = \<lparr>InternalLinks = replicate 11 ''A'', ExternalLinks = []\<rparr>"

definition noLinks :: LinkAnalysis where
  "noLinks = \<lparr>InternalLinks = [], ExternalLinks = []\<rparr>"

text \<open>The page of the test \<open>InvalidURL\<close>, and a schedule of the pool that checks it.\<close>

definition invalidAnalysis :: LinkAnalysis where
  "invalidAnalysis = \<lparr>InternalLinks = [''ht tp://invalid-url''], ExternalLinks = []\<rparr>"

definition invalidSchedule2 :: "actor list" where
  "invalidSchedule2 = replicate 3 Main @ replicate 4 (Worker 0) @ [Closer, Main, Main]"

text \<open>A schedule that runs the eleven probes of \<open>elevenLinks\<close> to their end, one after the other.\<close>

definition elevenSchedule :: "nat list" where
  "elevenSchedule = concat (map (replicate 2) [0..<11])"

text \<open>A worker with a probe in flight.\<close>

fun inFlight :: "worker \<Rightarrow> bool" where
  "inFlight (Busy t es) = True"
| "inFlight w = False"

section \<open>Properties of the probe\<close>

lemma checkLoop_exit: "maxRetries \<le> i \<Longrightarrow> checkLoop ctx nt url i b t = [Send url]"
  by (simp add: checkLoop.simps)

lemma checkLoop_malformed:
  "malformed nt url \<Longrightarrow> checkLoop ctx nt url i b t = [Send url]"
  by (simp add: checkLoop.simps newRequestWithContext_def)

lemma checkLoop_success:
  "i < maxRetries \<Longrightarrow> \<not> malformed nt url \<Longrightarrow> success (clientDo ctx nt t url i) \<Longrightarrow>
   checkLoop ctx nt url i b t = [Do (Suc i)]"
  by (subst checkLoop.simps)
     (auto simp: newRequestWithContext_def success_def split: reply.splits)

lemma checkLoop_failure:
  "i < maxRetries \<Longrightarrow> \<not> malformed nt url \<Longrightarrow> \<not> success (clientDo ctx nt t url i) \<Longrightarrow>
   checkLoop ctx nt url i b t =
     Do (Suc i) # Sleep b # checkLoop ctx nt url (Suc i) (b * 2) (t + b)"
  by (subst checkLoop.simps)
     (auto simp: newRequestWithContext_def success_def split: reply.splits)

lemma trace_cases:
  assumes "\<not> malformed nt url"
  shows "linkAccessibilityChecker ctx nt url now =
     (if success (clientDo ctx nt now url 0) then [Do 1]
      else if success (clientDo ctx nt (now + 1 * second) url 1)
        then [Do 1, Sleep (1 * second), Do 2]
      else if success (clientDo ctx nt (now + 3 * second) url 2)
        then [Do 1, Sleep (1 * second), Do 2, Sleep (2 * second), Do 3]
      else failTrace url)"
proof -
  have n: "(0::nat) < maxRetries" "Suc 0 < maxRetries" "Suc (Suc 0) < maxRetries"
    "maxRetries \<le> Suc (Suc (Suc 0))"
    by (simp_all add: maxRetries_def)
  have t: "now + 1 * second + 1 * second * 2 = now + 3 * second" by simp
  have s: "(1::nat) = Suc 0" "(2::nat) = Suc (Suc 0)" "(3::nat) = Suc (Suc (Suc 0))"
    by simp_all
  note ok = checkLoop_success [OF _ assms] and ko = checkLoop_failure [OF _ assms]
  show ?thesis
    unfolding linkAccessibilityChecker_def initialBackoff_def failTrace_def s
    by (simp add: ok [OF n(1)] ko [OF n(1)] ok [OF n(2)] ko [OF n(2)]
        ok [OF n(3)] ko [OF n(3)] checkLoop_exit [OF n(4)] add.commute)
qed



lemma second_pos: "0 < second"
  by (simp add: second_def)



lemma testNet_simps:
  "malformed testNet u = (u = ''ht tp://invalid-url'')"
  "respond testNet ''A'' i = Status 200"
  "respond testNet ''B'' i = Status 500"
  "respond testNet ''C'' i = ConnError"
  "respond testNet ''D'' i = (if i = 0 then Status 503 else Status 200)"
  by (simp_all add: testNet_def)


lemma trace_shapes:
  "linkAccessibilityChecker ctx nt url now \<in>
     {[Send url], [Do 1], [Do 1, Sleep (1 * second), Do 2],
      [Do 1, Sleep (1 * second), Do 2, Sleep (2 * second), Do 3], failTrace url}"
proof (cases "malformed nt url")
  case True
  then show ?thesis
    by (simp add: linkAccessibilityChecker_def checkLoop_malformed)
next
  case False
  show ?thesis
    by (simp add: trace_cases [OF False])
qed

text \<open>
  Every backoff the probe sleeps is a positive number of nanoseconds, and \<open>backoff *= 2\<close>
  does not overflow an \<open>int64\<close>.
\<close>

lemma sleeps_int64:
  "list_all (\<lambda>d. 0 < d \<and> d * 2 < 2 ^ 63) (sleeps (linkAccessibilityChecker ctx nt url now))"
  using trace_shapes [of ctx nt url now] by (auto simp: failTrace_def second_def)



text \<open>
  Claim C6. For a URL that can be made into a request, an iteration of the loop returns at
  once, with the request as its only effect (no sleep, no further attempt, nothing sent),
  exactly when the reply is a response whose status lies in \<open>[200, 300)\<close>. A probe whose
  first attempt fails and whose second succeeds makes exactly two requests, with the first
  backoff between them, and sends nothing into the failure channel.
\<close>

theorem first_success_returns:
  assumes "\<not> malformed nt url" and "i < maxRetries"
  shows "((checkLoop ctx nt url i b t = [Do (Suc i)]) =
            (\<exists>c. clientDo ctx nt t url i = Status c \<and> 200 \<le> c \<and> c < 300)) \<and>
         (\<not> success (clientDo ctx nt now url 0) \<and>
          success (clientDo ctx nt (now + initialBackoff) url 1) \<longrightarrow>
            linkAccessibilityChecker ctx nt url now = [Do 1, Sleep initialBackoff, Do 2] \<and>
            attempts (linkAccessibilityChecker ctx nt url now) = 2 \<and>
            sends (linkAccessibilityChecker ctx nt url now) = [])"
proof -
  have "checkLoop ctx nt url i b t = [Do (Suc i)]"
    if "clientDo ctx nt t url i = Status c" "200 \<le> c" "c < 300" for c
    using that assms by (simp add: checkLoop_success success_def)
  moreover have "\<exists>c. clientDo ctx nt t url i = Status c \<and> 200 \<le> c \<and> c < 300"
    if "checkLoop ctx nt url i b t = [Do (Suc i)]"
  proof (rule ccontr)
    assume "\<nexists>c. clientDo ctx nt t url i = Status c \<and> 200 \<le> c \<and> c < 300"
    then have "\<not> success (clientDo ctx nt t url i)"
      by (auto simp: success_def split: reply.splits)
    with that assms show False
      by (simp add: checkLoop_failure)
  qed
  moreover have "linkAccessibilityChecker ctx nt url now = [Do 1, Sleep initialBackoff, Do 2]"
    if "\<not> success (clientDo ctx nt now url 0)"
      "success (clientDo ctx nt (now + initialBackoff) url 1)"
    using that by (simp add: trace_cases [OF assms(1)] initialBackoff_def)
  ultimately show ?thesis
    by (auto simp: attempts_def)
qed

text \<open>
  The server \<open>A\<close> succeeds at once; the server \<open>D\<close> answers 503, then 200, as the server of
  the test \<open>SuccessAfterOneRetry\<close>.
\<close>

theorem first_success_returns_witness:
  "checkLoop None testNet ''A'' 0 initialBackoff 0 = [Do 1] \<and>
   linkAccessibilityChecker None testNet ''D'' 0 = [Do 1, Sleep initialBackoff, Do 2] \<and>
   attempts (linkAccessibilityChecker None testNet ''D'' 0) = 2 \<and>
   sends (linkAccessibilityChecker None testNet ''D'' 0) = []"
  using first_success_returns [of testNet "''A''" 0 None initialBackoff 0 0]
    first_success_returns [of testNet "''D''" 0 None initialBackoff 0 0]
  by (simp add: testNet_simps clientDo_def ctxDone_def success_def maxRetries_def attempts_def)




section \<open>Properties of loadWebPage\<close>

lemma loadWebPage_unfold:
  "loadLoop g get 0 None None [] =
     (if fetched (dataOf (get 0)) (errOf (get 0))
        then \<lparr>response = dataOf (get 0), err = None, slept = []\<rparr>
      else if fetched (dataOf (get 1)) (errOf (get 1))
        then \<lparr>response = dataOf (get 1), err = None, slept = [1 * second]\<rparr>
      else if fetched (dataOf (get 2)) (errOf (get 2))
        then \<lparr>response = dataOf (get 2), err = None, slept = [1 * second, 2 * second]\<rparr>
      else g (dataOf (get 2)) (errOf (get 2)) [1 * second, 2 * second])"
proof -
  have s: "(1::nat) = Suc 0" "(2::nat) = Suc (Suc 0)"
    by simp_all
  show ?thesis
    unfolding s
    by (simp add: loadLoop.simps [of _ _ 0] loadLoop.simps [of _ _ "Suc 0"]
        loadLoop.simps [of _ _ "Suc (Suc 0)"] loadLoop.simps [of _ _ "Suc (Suc (Suc 0))"]
        maxRetries_def initialBackoff_def Let_def mult.commute)
qed

text \<open>
  Claim C10 fails on \<open>loadWebPage\<close> of \<open>network.go\<close>: when the server answers 500 to all
  three attempts, \<open>err\<close> is \<open>nil\<close> after the loop and the function returns \<open>nil, nil\<close>.
\<close>

theorem loadWebPage_nil_nil:
  "response (loadWebPage always500) = None \<and> err (loadWebPage always500) = None"
  by (simp add: loadWebPage_def loadWebPage_unfold always500_def fetched_def giveUp_def)

text \<open>
  The revision of \<open>part_000\<close> does what the claim says: it returns either a response with a
  status in \<open>[200, 300)\<close> and no error, or no response and an error.
\<close>

lemma loadWebPage2_error:
  "(\<exists>c. response (loadWebPage2 get) = Some c \<and> 200 \<le> c \<and> c < 300 \<and>
        err (loadWebPage2 get) = None) \<or>
   (response (loadWebPage2 get) = None \<and> err (loadWebPage2 get) \<noteq> None)"
  by (cases "get 0"; cases "get 1"; cases "get 2")
     (simp_all add: loadWebPage2_def loadWebPage_unfold fetched_def giveUp2_def)

section \<open>Properties of the validator of network.go\<close>

lemma mset_concat_update:
  "j < length xs \<Longrightarrow>
   mset (concat (map f (xs[j := x]))) + mset (f (xs ! j)) = mset (concat (map f xs)) + mset (f x)"
proof (induction xs arbitrary: j)
  case Nil
  then show ?case by simp
next
  case (Cons y ys)
  show ?case
  proof (cases j)
    case 0
    then show ?thesis by simp
  next
    case (Suc k)
    with Cons.prems have "k < length ys" by simp
    from Cons.IH [OF this] Suc show ?thesis by simp
  qed
qed

lemma sum_list_update_rank:
  fixes f :: "'a \<Rightarrow> nat"
  shows "j < length xs \<Longrightarrow>
   sum_list (map f (xs[j := x])) + f (xs ! j) = sum_list (map f xs) + f x"
proof (induction xs arbitrary: j)
  case Nil
  then show ?case by simp
next
  case (Cons y ys)
  show ?case
  proof (cases j)
    case 0
    then show ?thesis by simp
  next
    case (Suc k)
    with Cons.prems have "k < length ys" by simp
    from Cons.IH [OF this] Suc show ?thesis by simp
  qed
qed

lemma sends_le_one: "length (sends (linkAccessibilityChecker ctx nt url now)) \<le> 1"
  using trace_shapes [of ctx nt url now] by (auto simp: failTrace_def)

lemma sends_verdict:
  "sends (linkAccessibilityChecker ctx nt url now) =
     (if inaccessible (linkAccessibilityChecker ctx nt url now) then [url] else [])"
  using trace_shapes [of ctx nt url now] by (auto simp: failTrace_def inaccessible_def)

lemma length_concat_le:
  "(\<And>x. x \<in> set xs \<Longrightarrow> length (f x) \<le> 1) \<Longrightarrow> length (concat (map f xs)) \<le> length xs"
proof (induction xs)
  case Nil
  then show ?case by simp
next
  case (Cons a xs)
  have "length (f a) \<le> 1" by (rule Cons.prems) simp
  moreover have "length (concat (map f xs)) \<le> length xs"
    by (rule Cons.IH, rule Cons.prems) simp
  ultimately show ?case by simp
qed

lemma length_reports: "length (reports ctx nt now pageLinks) \<le> length pageLinks"
  unfolding reports_def by (rule length_concat_le) (rule sends_le_one)

lemma reports_filter:
  "reports ctx nt now pageLinks =
     filter (\<lambda>url. inaccessible (linkAccessibilityChecker ctx nt url now)) pageLinks"
  unfolding reports_def by (induction pageLinks) (simp_all add: sends_verdict)

lemma inv1_start: "inv1 ctx nt pageLinks now (start ctx nt pageLinks now)"
  by (simp add: inv1_def start_def unsent_def reports_def comp_def)

lemma inv1_room:
  assumes "inv1 ctx nt pageLinks now s" and "j < length (checkers s)"
    and "checkers s ! j = Some (Send u # es)"
  shows "length (buffer s) < bufferCap s"
proof -
  have "checkers s ! j \<in> set (checkers s)"
    using assms(2) by (rule nth_mem)
  then have "u \<in> set (unsent s)"
    unfolding unsent_def using assms(3) by force
  then have "1 \<le> length (unsent s)" by (cases "unsent s") auto
  moreover have "length (history s) + length (unsent s) = length (reports ctx nt now pageLinks)"
    using assms(1) by (metis inv1_def length_append size_mset)
  moreover note length_reports [of ctx nt now pageLinks]
  ultimately have "length (history s) < length pageLinks" by linarith
  with assms(1) show ?thesis by (simp add: inv1_def)
qed

lemma unsent_update:
  "j < length (checkers s) \<Longrightarrow>
   mset (unsent (s\<lparr>checkers := (checkers s)[j := g]\<rparr>)) + mset (sends (rest (checkers s ! j))) =
   mset (unsent s) + mset (sends (rest g))"
  unfolding unsent_def using mset_concat_update [of j "checkers s" "\<lambda>g. sends (rest g)" g] by simp

lemma goroutine_cases:
  assumes "j < length (checkers s)"
  obtains (finished) "rest (checkers s ! j) = []" "goroutine j s = s\<lparr>checkers := (checkers s)[j := None]\<rparr>"
  | (quiet) e es where "checkers s ! j = Some (e # es)" "sends [e] = []"
      "goroutine j s = s\<lparr>checkers := (checkers s)[j := Some es]\<rparr>"
  | (send) u es where "checkers s ! j = Some (Send u # es)" "length (buffer s) < bufferCap s"
      "goroutine j s = s\<lparr>buffer := buffer s @ [u], history := history s @ [u],
         checkers := (checkers s)[j := Some es]\<rparr>"
  | (blocked) u es where "checkers s ! j = Some (Send u # es)" "\<not> length (buffer s) < bufferCap s"
      "goroutine j s = s"
proof (cases "checkers s ! j")
  case None
  with assms show ?thesis
    by (intro finished) (simp_all add: goroutine_def)
next
  case (Some es)
  show ?thesis
  proof (cases es)
    case Nil
    with Some assms show ?thesis
      by (intro finished) (simp_all add: goroutine_def)
  next
    case (Cons e es')
    show ?thesis
    proof (cases e)
      case (Do n)
      with Some Cons assms show ?thesis
        by (intro quiet [of e es']) (simp_all add: goroutine_def)
    next
      case (Sleep d)
      with Some Cons assms show ?thesis
        by (intro quiet [of e es']) (simp_all add: goroutine_def)
    next
      case (Send u)
      show ?thesis
      proof (cases "length (buffer s) < bufferCap s")
        case True
        with Send Some Cons assms show ?thesis
          by (intro send [of u es']) (simp_all add: goroutine_def)
      next
        case False
        with Send Some Cons assms show ?thesis
          by (intro blocked [of u es']) (simp_all add: goroutine_def list_update_same_conv)
      qed
    qed
  qed
qed

lemma inv1_goroutine:
  assumes "inv1 ctx nt pageLinks now s"
  shows "inv1 ctx nt pageLinks now (goroutine j s)"
proof (cases "j < length (checkers s)")
  case False
  with assms show ?thesis by (simp add: goroutine_def)
next
  case True
  note upd = unsent_update [OF True]
  from True show ?thesis
  proof (cases rule: goroutine_cases)
    case finished
    with assms upd [of None] show ?thesis
      by (simp add: inv1_def)
  next
    case (quiet e es)
    with assms upd [of "Some es"] show ?thesis
      by (cases e) (simp_all add: inv1_def)
  next
    case (send u es)
    have "unsent (s\<lparr>buffer := buffer s @ [u], history := history s @ [u],
        checkers := (checkers s)[j := Some es]\<rparr>) = unsent (s\<lparr>checkers := (checkers s)[j := Some es]\<rparr>)"
      by (simp add: unsent_def)
    with send assms upd [of "Some es"] show ?thesis
      by (simp add: inv1_def)
  next
    case (blocked u es)
    with assms show ?thesis by simp
  qed
qed

lemma inv1_run: "inv1 ctx nt pageLinks now s \<Longrightarrow> inv1 ctx nt pageLinks now (run js s)"
  by (induction js arbitrary: s) (simp_all add: inv1_goroutine)

lemma joined_unsent: "joined s \<Longrightarrow> unsent s = []"
  by (auto simp: joined_def unsent_def list_all_iff Option.is_none_def)

lemma work_update:
  "j < length (checkers s) \<Longrightarrow>
   work (s\<lparr>checkers := (checkers s)[j := g]\<rparr>) + rank (checkers s ! j) = work s + rank g"
  unfolding work_def using sum_list_update_rank [of j "checkers s" rank g] by simp

lemma work_goroutine:
  assumes "inv1 ctx nt pageLinks now s" and "j < length (checkers s)"
    and "checkers s ! j \<noteq> None"
  shows "work (goroutine j s) < work s"
  using assms(2)
proof (cases rule: goroutine_cases)
  case finished
  with assms(3) have "checkers s ! j = Some []" by (cases "checkers s ! j") auto
  with finished work_update [OF assms(2), of None] show ?thesis by simp
next
  case (quiet e es)
  with work_update [OF assms(2), of "Some es"] show ?thesis by simp
next
  case (send u es)
  have "work (s\<lparr>buffer := buffer s @ [u], history := history s @ [u],
      checkers := (checkers s)[j := Some es]\<rparr>) = work (s\<lparr>checkers := (checkers s)[j := Some es]\<rparr>)"
    by (simp add: work_def)
  with send work_update [OF assms(2), of "Some es"] show ?thesis by simp
next
  case (blocked u es)
  with inv1_room [OF assms(1,2)] show ?thesis by simp
qed

lemma run_append: "run (js @ ks) s = run ks (run js s)"
  by (induction js arbitrary: s) simp_all

lemma not_joined:
  assumes "\<not> joined s"
  obtains j where "j < length (checkers s)" "checkers s ! j \<noteq> None"
proof -
  from assms obtain g where "g \<in> set (checkers s)" "g \<noteq> None"
    by (auto simp: joined_def list_all_iff Option.is_none_def)
  then show ?thesis
    by (auto simp: in_set_conv_nth intro: that)
qed

lemma fanout_completes:
  "inv1 ctx nt pageLinks now s \<Longrightarrow> \<exists>js. joined (run js s)"
proof (induction "work s" arbitrary: s rule: less_induct)
  case less
  show ?case
  proof (cases "joined s")
    case True
    then have "joined (run [] s)" by simp
    then show ?thesis ..
  next
    case False
    then obtain j where j: "j < length (checkers s)" "checkers s ! j \<noteq> None"
      by (rule not_joined)
    have "work (goroutine j s) < work s"
      using less.prems j by (rule work_goroutine)
    moreover have "inv1 ctx nt pageLinks now (goroutine j s)"
      using less.prems by (rule inv1_goroutine)
    ultimately obtain js where "joined (run js (goroutine j s))"
      using less.hyps by blast
    then have "joined (run (j # js) s)" by simp
    then show ?thesis ..
  qed
qed

lemma validate1_returns:
  "\<exists>ks. validateLinkAccessibility ctx nt analysis now (js @ ks) \<noteq> None"
proof -
  let ?links = "InternalLinks analysis @ ExternalLinks analysis"
  have "inv1 ctx nt ?links now (run js (start ctx nt ?links now))"
    by (intro inv1_run inv1_start)
  then obtain ks where "joined (run ks (run js (start ctx nt ?links now)))"
    using fanout_completes by blast
  then have "validateLinkAccessibility ctx nt analysis now (js @ ks) \<noteq> None"
    by (simp add: validateLinkAccessibility_def run_append Let_def)
  then show ?thesis ..
qed

lemma validate1_result:
  assumes "validateLinkAccessibility ctx nt analysis now js = Some r"
  shows "verr r = None \<and>
    mset (links r) = mset (filter (\<lambda>url. inaccessible (linkAccessibilityChecker ctx nt url now))
      (InternalLinks analysis @ ExternalLinks analysis))"
proof (cases "InternalLinks analysis @ ExternalLinks analysis = []")
  case True
  with assms show ?thesis
    by (auto simp: validateLinkAccessibility_def)
next
  case False
  let ?links = "InternalLinks analysis @ ExternalLinks analysis"
  let ?s = "run js (start ctx nt ?links now)"
  from assms False have j: "joined ?s" and r: "r = \<lparr>links = buffer ?s, verr = None, spawned = length (checkers ?s)\<rparr>"
    by (auto simp: validateLinkAccessibility_def Let_def split: if_splits)
  have "inv1 ctx nt ?links now ?s"
    by (intro inv1_run inv1_start)
  with joined_unsent [OF j] have "mset (buffer ?s) = mset (reports ctx nt now ?links)"
    by (simp add: inv1_def)
  with r show ?thesis
    by (simp add: reports_filter)
qed

section \<open>Properties of the validator of part_000\<close>

lemma worker_cases:
  assumes "w < length (workers s)"
  obtains (exited) "workers s ! w = Exited" "step ctx nt (Worker w) s = s"
  | (waits) t where "workers s ! w = Idle t" "jobs s = []" "\<not> jobsClosed s"
      "step ctx nt (Worker w) s = s"
  | (leaves) t where "workers s ! w = Idle t" "jobs s = []" "jobsClosed s"
      "step ctx nt (Worker w) s = s\<lparr>workers := (workers s)[w := Exited]\<rparr>"
  | (takes) t url us where "workers s ! w = Idle t" "jobs s = url # us"
      "step ctx nt (Worker w) s =
         s\<lparr>jobs := us, started := started s @ [(url, t)],
           workers := (workers s)[w := Busy t (linkAccessibilityChecker ctx nt url t)]\<rparr>"
  | (returns) t where "workers s ! w = Busy t []"
      "step ctx nt (Worker w) s = s\<lparr>workers := (workers s)[w := Idle t]\<rparr>"
  | (requests) t n es where "workers s ! w = Busy t (Do n # es)"
      "step ctx nt (Worker w) s = s\<lparr>workers := (workers s)[w := Busy t es]\<rparr>"
  | (sleeps) t d es where "workers s ! w = Busy t (Sleep d # es)"
      "step ctx nt (Worker w) s = s\<lparr>workers := (workers s)[w := Busy (t + d) es]\<rparr>"
  | (sends) t u es where "workers s ! w = Busy t (Send u # es)"
      "length (inaccessibleLinks s) < linksCap s"
      "step ctx nt (Worker w) s =
         s\<lparr>inaccessibleLinks := inaccessibleLinks s @ [u], sent := sent s @ [u],
           workers := (workers s)[w := Busy t es]\<rparr>"
  | (blocked) t u es where "workers s ! w = Busy t (Send u # es)"
      "\<not> length (inaccessibleLinks s) < linksCap s" "step ctx nt (Worker w) s = s"
proof (cases "workers s ! w")
  case Exited
  with assms show ?thesis
    by (intro exited) (simp_all add: list_update_same_conv)
next
  case (Idle t)
  show ?thesis
  proof (cases "jobs s")
    case Nil
    show ?thesis
    proof (cases "jobsClosed s")
      case True
      with Idle Nil assms show ?thesis
        by (intro leaves [of t]) simp_all
    next
      case False
      with Idle Nil assms show ?thesis
        by (intro waits [of t]) (simp_all add: list_update_same_conv)
    qed
  next
    case (Cons url us)
    with Idle assms show ?thesis
      by (intro takes [of t url us]) simp_all
  qed
next
  case (Busy t es)
  show ?thesis
  proof (cases es)
    case Nil
    with Busy assms show ?thesis
      by (intro returns [of t]) simp_all
  next
    case (Cons e es')
    show ?thesis
    proof (cases e)
      case (Do n)
      with Busy Cons assms show ?thesis
        by (intro requests [of t n es']) simp_all
    next
      case (Sleep d)
      with Busy Cons assms show ?thesis
        by (intro sleeps [of t d es']) simp_all
    next
      case (Send u)
      show ?thesis
      proof (cases "length (inaccessibleLinks s) < linksCap s")
        case True
        with Send Busy Cons assms show ?thesis
          by (intro sends [of t u es']) simp_all
      next
        case False
        with Send Busy Cons assms show ?thesis
          by (intro blocked [of t u es']) (simp_all add: list_update_same_conv)
      qed
    qed
  qed
qed

lemma unsent2_update:
  "w < length (workers s) \<Longrightarrow>
   mset (unsent2 (s\<lparr>workers := (workers s)[w := x]\<rparr>)) + mset (sends (todo (workers s ! w))) =
   mset (unsent2 s) + mset (sends (todo x))"
  unfolding unsent2_def
  using mset_concat_update [of w "workers s" "\<lambda>w. sends (todo w)" x] by simp

lemma unsent2_frame [simp]:
  "unsent2 (s\<lparr>jobs := a\<rparr>) = unsent2 s"
  "unsent2 (s\<lparr>started := b\<rparr>) = unsent2 s"
  "unsent2 (s\<lparr>inaccessibleLinks := c\<rparr>) = unsent2 s"
  "unsent2 (s\<lparr>sent := d\<rparr>) = unsent2 s"
  "unsent2 (s\<lparr>pc := e\<rparr>) = unsent2 s"
  "unsent2 (s\<lparr>failedLinks := f\<rparr>) = unsent2 s"
  "unsent2 (s\<lparr>jobsClosed := g\<rparr>) = unsent2 s"
  "unsent2 (s\<lparr>closerSpawned := h\<rparr>) = unsent2 s"
  "unsent2 (s\<lparr>linksClosed := i\<rparr>) = unsent2 s"
  by (simp_all add: unsent2_def)

lemma allExited_frame [simp]:
  "allExited (s\<lparr>jobs := a\<rparr>) = allExited s"
  "allExited (s\<lparr>started := b\<rparr>) = allExited s"
  "allExited (s\<lparr>inaccessibleLinks := c\<rparr>) = allExited s"
  "allExited (s\<lparr>sent := d\<rparr>) = allExited s"
  "allExited (s\<lparr>pc := e\<rparr>) = allExited s"
  "allExited (s\<lparr>failedLinks := f\<rparr>) = allExited s"
  "allExited (s\<lparr>jobsClosed := g\<rparr>) = allExited s"
  "allExited (s\<lparr>closerSpawned := h\<rparr>) = allExited s"
  "allExited (s\<lparr>linksClosed := i\<rparr>) = allExited s"
  by (simp_all add: allExited_def)

lemma allExited_nth: "allExited s \<Longrightarrow> w < length (workers s) \<Longrightarrow> workers s ! w = Exited"
  by (simp add: allExited_def list_all_length)

lemma allExited_update:
  "allExited s \<Longrightarrow> allExited (s\<lparr>workers := (workers s)[w := Exited]\<rparr>)"
  by (auto simp: allExited_def list_all_iff dest: subsetD [OF set_update_subset_insert])

lemma Exited_update:
  "Exited \<in> set (ws[w := x]) \<Longrightarrow> x \<noteq> Exited \<Longrightarrow> Exited \<in> set ws"
  by (auto dest: subsetD [OF set_update_subset_insert])

lemma list_all_update: "list_all P xs \<Longrightarrow> P x \<Longrightarrow> list_all P (xs[w := x])"
  by (auto simp: list_all_iff dest: subsetD [OF set_update_subset_insert])

lemma sleeps_nonneg: "list_all (\<lambda>d. 0 \<le> d) (sleeps (linkAccessibilityChecker ctx nt url t))"
  using trace_shapes [of ctx nt url t] second_pos by (auto simp: failTrace_def)

lemma reports2_snoc:
  "reports2 ctx nt (ps @ [(url, t)]) = reports2 ctx nt ps @ sends (linkAccessibilityChecker ctx nt url t)"
  by (simp add: reports2_def)

lemma length_reports2: "length (reports2 ctx nt ps) \<le> length ps"
  unfolding reports2_def
proof (rule length_concat_le)
  fix p :: "string \<times> int"
  show "length (case p of (url, t) \<Rightarrow> sends (linkAccessibilityChecker ctx nt url t)) \<le> 1"
    using sends_le_one [of ctx nt "fst p" "snd p"] by (simp add: case_prod_beta)
qed

lemma inv2_start:
  assumes "pageLinks \<noteq> []"
  shows "inv2 ctx nt pageLinks now (start2 pageLinks now)"
proof -
  have "invShape pageLinks (start2 pageLinks now)"
    by (simp add: invShape_def start2_def Let_def allExited_def)
  moreover have "invFlow ctx nt pageLinks (start2 pageLinks now)"
    by (simp add: invFlow_def start2_def Let_def unsent2_def reports2_def)
  moreover have "invClock now (start2 pageLinks now)"
    by (simp add: invClock_def start2_def Let_def list_all_iff)
  ultimately show ?thesis by (simp add: inv2_def)
qed

lemma busy_not_closed:
  assumes "invShape pageLinks s" and "w < length (workers s)" and "workers s ! w \<noteq> Exited"
  shows "\<not> linksClosed s \<and> pc s \<noteq> Returned"
  using assms allExited_nth [of s w] by (auto simp: invShape_def)

lemma flow_lengths:
  assumes "invFlow ctx nt pageLinks s"
  shows "length (started s) + length (jobs s) + length (remaining (pc s)) = length pageLinks"
    and "length (failedLinks s) + length (inaccessibleLinks s) + length (unsent2 s) \<le> length (started s)"
proof -
  from assms have "length (map fst (started s) @ jobs s @ remaining (pc s)) = length pageLinks"
    by (simp add: invFlow_def)
  then show "length (started s) + length (jobs s) + length (remaining (pc s)) = length pageLinks"
    by simp
  from assms have "size (mset (sent s @ unsent2 s)) = size (mset (reports2 ctx nt (started s)))"
    by (simp add: invFlow_def)
  then have "length (sent s) + length (unsent2 s) = length (reports2 ctx nt (started s))"
    by simp
  moreover from assms have "length (failedLinks s) + length (inaccessibleLinks s) = length (sent s)"
    by (metis invFlow_def length_append)
  ultimately show "length (failedLinks s) + length (inaccessibleLinks s) + length (unsent2 s)
      \<le> length (started s)"
    using length_reports2 [of ctx nt "started s"] by simp
qed

lemma room_links:
  assumes "inv2 ctx nt pageLinks now s" and "w < length (workers s)"
    and "workers s ! w = Busy t (Send u # es)"
  shows "length (inaccessibleLinks s) < linksCap s"
proof -
  have "workers s ! w \<in> set (workers s)"
    using assms(2) by (rule nth_mem)
  then have "u \<in> set (unsent2 s)"
    unfolding unsent2_def using assms(3) by force
  then have "1 \<le> length (unsent2 s)" by (cases "unsent2 s") auto
  moreover from assms(1) have f: "invFlow ctx nt pageLinks s" by (simp add: inv2_def)
  note flow_lengths [OF f]
  ultimately have "length (inaccessibleLinks s) < length pageLinks" by linarith
  with assms(1) show ?thesis by (simp add: inv2_def invShape_def)
qed

lemma room_jobs:
  assumes "inv2 ctx nt pageLinks now s" and "pc s = Enqueue (l # ls)"
  shows "length (jobs s) < jobsCap s"
proof -
  from assms(1) have f: "invFlow ctx nt pageLinks s" by (simp add: inv2_def)
  from flow_lengths(1) [OF f] assms(2) have "length (jobs s) < length pageLinks" by simp
  with assms(1) show ?thesis by (simp add: inv2_def invShape_def)
qed

lemma inv2_main:
  assumes "inv2 ctx nt pageLinks now s"
  shows "inv2 ctx nt pageLinks now (step ctx nt Main s)"
proof (cases "pc s")
  case (Enqueue ls)
  show ?thesis
  proof (cases ls)
    case Nil
    with Enqueue assms show ?thesis
      by (auto simp: inv2_def invShape_def invFlow_def invClock_def)
  next
    case (Cons l ls')
    with Enqueue assms room_jobs [OF assms, of l ls'] show ?thesis
      by (auto simp: inv2_def invShape_def invFlow_def invClock_def)
  qed
next
  case SpawnCloser
  with assms show ?thesis
    by (auto simp: inv2_def invShape_def invFlow_def invClock_def)
next
  case Drain
  with assms show ?thesis
    by (cases "inaccessibleLinks s")
       (auto simp: inv2_def invShape_def invFlow_def invClock_def)
next
  case Returned
  with assms show ?thesis by simp
qed

lemma inv2_closer:
  assumes "inv2 ctx nt pageLinks now s"
  shows "inv2 ctx nt pageLinks now (step ctx nt Closer s)"
  using assms by (auto simp: closerStep_def inv2_def invShape_def invFlow_def invClock_def)

lemma invShape_worker:
  assumes "inv2 ctx nt pageLinks now s"
  shows "invShape pageLinks (step ctx nt (Worker w) s)"
proof (cases "w < length (workers s)")
  case False
  with assms show ?thesis by (simp add: inv2_def)
next
  case True
  from assms have sh: "invShape pageLinks s" by (simp add: inv2_def)
  have live: "\<not> linksClosed s \<and> pc s \<noteq> Returned" if "workers s ! w \<noteq> Exited"
    using sh True that by (rule busy_not_closed)
  have keep: "invShape pageLinks (s\<lparr>workers := (workers s)[w := x]\<rparr>)"
    if "workers s ! w \<noteq> Exited" "x \<noteq> Exited" for x
    using sh live [OF that(1)] that(2)
    by (auto simp: invShape_def dest: Exited_update)
  from True show ?thesis
  proof (cases rule: worker_cases [where ctx = ctx and nt = nt])
    case exited
    with sh show ?thesis by simp
  next
    case (waits t)
    with sh show ?thesis by simp
  next
    case (leaves t)
    with sh live show ?thesis
      by (auto simp: invShape_def)
  next
    case (takes t url us)
    have "Exited \<notin> set (workers s)"
      using sh takes(2) by (auto simp: invShape_def)
    then have "Exited \<notin> set ((workers s)[w := Busy t (linkAccessibilityChecker ctx nt url t)])"
      by (auto dest: Exited_update)
    with takes sh live show ?thesis
      by (auto simp: invShape_def)
  next
    case (returns t)
    with keep [of "Idle t"] show ?thesis by simp
  next
    case (requests t n es)
    with keep [of "Busy t es"] show ?thesis by simp
  next
    case (sleeps t d es)
    with keep [of "Busy (t + d) es"] show ?thesis by simp
  next
    case (sends t u es)
    with sh live show ?thesis
      by (auto simp: invShape_def dest: Exited_update)
  next
    case (blocked t u es)
    with sh show ?thesis by simp
  qed
qed

lemma invFlow_worker:
  assumes "inv2 ctx nt pageLinks now s"
  shows "invFlow ctx nt pageLinks (step ctx nt (Worker w) s)"
proof (cases "w < length (workers s)")
  case False
  with assms show ?thesis by (simp add: inv2_def)
next
  case True
  from assms have fl: "invFlow ctx nt pageLinks s" by (simp add: inv2_def)
  note upd = unsent2_update [OF True]
  have keep: "invFlow ctx nt pageLinks (s\<lparr>workers := (workers s)[w := x]\<rparr>)"
    if "sends (todo x) = sends (todo (workers s ! w))" for x
    using fl upd [of x] that by (simp add: invFlow_def)
  from True show ?thesis
  proof (cases rule: worker_cases [where ctx = ctx and nt = nt])
    case exited
    with fl show ?thesis by simp
  next
    case (waits t)
    with fl show ?thesis by simp
  next
    case (leaves t)
    with keep [of Exited] show ?thesis by simp
  next
    case (takes t url us)
    let ?x = "Busy t (linkAccessibilityChecker ctx nt url t)"
    have "unsent2 (s\<lparr>jobs := us, started := started s @ [(url, t)],
        workers := (workers s)[w := ?x]\<rparr>) = unsent2 (s\<lparr>workers := (workers s)[w := ?x]\<rparr>)"
      by (simp add: unsent2_def)
    with takes fl upd [of ?x] show ?thesis
      by (simp add: invFlow_def reports2_snoc)
  next
    case (returns t)
    with keep [of "Idle t"] show ?thesis by simp
  next
    case (requests t n es)
    with keep [of "Busy t es"] show ?thesis by simp
  next
    case (sleeps t d es)
    with keep [of "Busy (t + d) es"] show ?thesis by simp
  next
    case (sends t u es)
    have "unsent2 (s\<lparr>inaccessibleLinks := inaccessibleLinks s @ [u], sent := sent s @ [u],
        workers := (workers s)[w := Busy t es]\<rparr>) =
        unsent2 (s\<lparr>workers := (workers s)[w := Busy t es]\<rparr>)"
      by (simp add: unsent2_def)
    with sends fl upd [of "Busy t es"] show ?thesis
      by (simp add: invFlow_def)
  next
    case (blocked t u es)
    with fl show ?thesis by simp
  qed
qed

lemma invClock_worker:
  assumes "inv2 ctx nt pageLinks now s"
  shows "invClock now (step ctx nt (Worker w) s)"
proof (cases "w < length (workers s)")
  case False
  with assms show ?thesis by (simp add: inv2_def)
next
  case True
  from assms have cl: "invClock now s" by (simp add: inv2_def)
  then have ok: "clockOK now (workers s ! w)"
    using True by (simp add: invClock_def list_all_length)
  have keep: "invClock now (s\<lparr>workers := (workers s)[w := x]\<rparr>)" if "clockOK now x" for x
    using cl that by (simp add: invClock_def list_all_update)
  from True show ?thesis
  proof (cases rule: worker_cases [where ctx = ctx and nt = nt])
    case exited
    with cl show ?thesis by simp
  next
    case (waits t)
    with cl show ?thesis by simp
  next
    case (leaves t)
    with keep [of Exited] show ?thesis by simp
  next
    case (takes t url us)
    with ok cl sleeps_nonneg [of ctx nt url t] show ?thesis
      by (simp add: invClock_def list_all_update)
  next
    case (returns t)
    with ok keep [of "Idle t"] show ?thesis by simp
  next
    case (requests t n es)
    with ok keep [of "Busy t es"] show ?thesis by simp
  next
    case (sleeps t d es)
    with ok keep [of "Busy (t + d) es"] show ?thesis by simp
  next
    case (sends t u es)
    with ok cl show ?thesis
      by (simp add: invClock_def list_all_update)
  next
    case (blocked t u es)
    with cl show ?thesis by simp
  qed
qed

lemma inv2_step:
  assumes "inv2 ctx nt pageLinks now s"
  shows "inv2 ctx nt pageLinks now (step ctx nt a s)"
proof (cases a)
  case Main
  with assms show ?thesis by (simp only: inv2_main)
next
  case (Worker w)
  with invShape_worker [OF assms] invFlow_worker [OF assms] invClock_worker [OF assms]
  show ?thesis by (simp only: inv2_def simp_thms)
next
  case Closer
  with assms show ?thesis by (simp only: inv2_closer)
qed

lemma inv2_run:
  "inv2 ctx nt pageLinks now s \<Longrightarrow> inv2 ctx nt pageLinks now (run2 ctx nt sched s)"
  by (induction sched arbitrary: s) (simp_all add: inv2_step)

lemma length_trace: "length (linkAccessibilityChecker ctx nt url t) \<le> 7"
  using trace_shapes [of ctx nt url t] by (auto simp: failTrace_def)

lemma rank2_update:
  "w < length ws \<Longrightarrow>
   sum_list (map rank2 (ws[w := x])) + rank2 (ws ! w) = sum_list (map rank2 ws) + rank2 x"
  by (rule sum_list_update_rank)

lemma work2_worker:
  assumes "inv2 ctx nt pageLinks now s" and "w < length (workers s)"
    and "workers s ! w \<noteq> Exited" and "jobsClosed s"
  shows "work2 (step ctx nt (Worker w) s) < work2 s"
  using assms(2)
proof (cases rule: worker_cases [where ctx = ctx and nt = nt])
  case exited
  with assms(3) show ?thesis by simp
next
  case (waits t)
  with assms(4) show ?thesis by simp
next
  case (leaves t)
  with rank2_update [OF assms(2), of Exited] show ?thesis
    by (simp add: work2_def)
next
  case (takes t url us)
  with rank2_update [OF assms(2), of "Busy t (linkAccessibilityChecker ctx nt url t)"]
    length_trace [of ctx nt url t]
  show ?thesis
    by (simp add: work2_def)
next
  case (returns t)
  with rank2_update [OF assms(2), of "Idle t"] show ?thesis
    by (simp add: work2_def)
next
  case (requests t n es)
  with rank2_update [OF assms(2), of "Busy t es"] show ?thesis
    by (simp add: work2_def)
next
  case (sleeps t d es)
  with rank2_update [OF assms(2), of "Busy (t + d) es"] show ?thesis
    by (simp add: work2_def)
next
  case (sends t u es)
  with rank2_update [OF assms(2), of "Busy t es"] show ?thesis
    by (simp add: work2_def)
next
  case (blocked t u es)
  with room_links [OF assms(1,2)] show ?thesis by simp
qed

lemma not_allExited:
  assumes "\<not> allExited s"
  obtains w where "w < length (workers s)" "workers s ! w \<noteq> Exited"
proof -
  from assms obtain x where "x \<in> set (workers s)" "x \<noteq> Exited"
    by (auto simp: allExited_def list_all_iff)
  then show ?thesis
    by (auto simp: in_set_conv_nth intro: that)
qed

lemma pool_progress:
  assumes "inv2 ctx nt pageLinks now s" and "pc s \<noteq> Returned"
  shows "\<exists>a. work2 (step ctx nt a s) < work2 s"
proof (cases "pc s")
  case (Enqueue ls)
  show ?thesis
  proof (cases ls)
    case Nil
    with Enqueue have "work2 (step ctx nt Main s) < work2 s"
      by (simp add: work2_def)
    then show ?thesis ..
  next
    case (Cons l ls')
    with Enqueue room_jobs [OF assms(1), of l ls']
    have "work2 (step ctx nt Main s) < work2 s"
      by (simp add: work2_def)
    then show ?thesis ..
  qed
next
  case SpawnCloser
  then have "work2 (step ctx nt Main s) < work2 s"
    by (simp add: work2_def)
  then show ?thesis ..
next
  case Drain
  from assms(1) have sh: "invShape pageLinks s" by (simp add: inv2_def)
  show ?thesis
  proof (cases "inaccessibleLinks s")
    case (Cons l ls)
    with Drain have "work2 (step ctx nt Main s) < work2 s"
      by (simp add: work2_def)
    then show ?thesis ..
  next
    case Nil
    show ?thesis
    proof (cases "linksClosed s")
      case True
      with Drain Nil have "work2 (step ctx nt Main s) < work2 s"
        by (simp add: work2_def)
      then show ?thesis ..
    next
      case False
      show ?thesis
      proof (cases "allExited s")
        case True
        with False sh Drain have "work2 (step ctx nt Closer s) < work2 s"
          by (simp add: work2_def closerStep_def invShape_def)
        then show ?thesis ..
      next
        case False
        then obtain w where w: "w < length (workers s)" "workers s ! w \<noteq> Exited"
          by (rule not_allExited)
        from sh Drain have "jobsClosed s" by (simp add: invShape_def)
        with assms(1) w have "work2 (step ctx nt (Worker w) s) < work2 s"
          by (intro work2_worker)
        then show ?thesis ..
      qed
    qed
  qed
next
  case Returned
  with assms(2) show ?thesis by simp
qed

lemma pool_completes:
  "inv2 ctx nt pageLinks now s \<Longrightarrow> \<exists>sched. pc (run2 ctx nt sched s) = Returned"
proof (induction "work2 s" arbitrary: s rule: less_induct)
  case less
  show ?case
  proof (cases "pc s = Returned")
    case True
    then have "pc (run2 ctx nt [] s) = Returned" by simp
    then show ?thesis ..
  next
    case False
    with less.prems obtain a where "work2 (step ctx nt a s) < work2 s"
      using pool_progress by blast
    moreover have "inv2 ctx nt pageLinks now (step ctx nt a s)"
      using less.prems by (rule inv2_step)
    ultimately obtain sched where "pc (run2 ctx nt sched (step ctx nt a s)) = Returned"
      using less.hyps by blast
    then have "pc (run2 ctx nt (a # sched) s) = Returned" by simp
    then show ?thesis ..
  qed
qed

lemma run2_append: "run2 ctx nt (as @ bs) s = run2 ctx nt bs (run2 ctx nt as s)"
  by (induction as arbitrary: s) simp_all

lemma validate2_returns:
  "\<exists>bs. validateLinkAccessibility2 ctx nt analysis now (as @ bs) \<noteq> None"
proof (cases "InternalLinks analysis @ ExternalLinks analysis = []")
  case True
  then have "validateLinkAccessibility2 ctx nt analysis now (as @ []) \<noteq> None"
    by (simp add: validateLinkAccessibility2_def)
  then show ?thesis ..
next
  case False
  let ?links = "InternalLinks analysis @ ExternalLinks analysis"
  have "inv2 ctx nt ?links now (run2 ctx nt as (start2 ?links now))"
    using False by (intro inv2_run inv2_start)
  then obtain bs where "pc (run2 ctx nt bs (run2 ctx nt as (start2 ?links now))) = Returned"
    using pool_completes by blast
  then have "validateLinkAccessibility2 ctx nt analysis now (as @ bs) \<noteq> None"
    by (simp add: validateLinkAccessibility2_def run2_append Let_def)
  then show ?thesis ..
qed

lemma testSchedule_result: "validateLinkAccessibility None testNet testAnalysis 0 testSchedule =
    Some \<lparr>links = [''C'', ''B''], verr = None, spawned = 3\<rparr>"
  by code_simp

lemma testSchedule2_result: "validateLinkAccessibility2 None testNet testAnalysis 0 testSchedule2 =
    Some \<lparr>links = [''C'', ''B''], verr = None, spawned = 4\<rparr>"
  by code_simp

lemma steady_verdict:
  assumes "ctx = None \<or> ctxDone ctx now" and "now \<le> t"
  shows "linkAccessibilityChecker ctx nt url t = linkAccessibilityChecker ctx nt url now"
proof (cases "malformed nt url")
  case True
  then show ?thesis
    by (simp add: linkAccessibilityChecker_def checkLoop_malformed)
next
  case False
  have "clientDo ctx nt (t + d) url i = clientDo ctx nt (now + d) url i" if "0 \<le> d" for d i
    using assms that by (auto simp: clientDo_def ctxDone_def split: option.splits)
  from this [of 0] this [of "1 * second"] this [of "3 * second"] second_pos
  show ?thesis
    by (simp add: trace_cases [OF False])
qed

lemma Returned_flow:
  assumes "inv2 ctx nt pageLinks now s" and "pc s = Returned" and "pageLinks \<noteq> []"
  shows "map fst (started s) = pageLinks" and "failedLinks s = sent s"
    and "mset (failedLinks s) = mset (reports2 ctx nt (started s))"
proof -
  from assms(1) have sh: "invShape pageLinks s" and fl: "invFlow ctx nt pageLinks s"
    by (simp_all add: inv2_def)
  from sh assms(2) have closed: "allExited s" "inaccessibleLinks s = []"
    by (simp_all add: invShape_def)
  from sh have "length (workers s) = min numWorkers (length pageLinks)"
    by (simp add: invShape_def)
  with assms(3) have "workers s \<noteq> []"
    by (cases pageLinks) (auto simp: numWorkers_def)
  with closed(1) have "Exited \<in> set (workers s)"
    by (cases "workers s") (auto simp: allExited_def)
  with sh have "jobs s = []" by (simp add: invShape_def)
  with fl assms(2) show "map fst (started s) = pageLinks"
    by (simp add: invFlow_def)
  from fl closed(2) show sent: "failedLinks s = sent s"
    by (simp add: invFlow_def)
  have "unsent2 s = []"
    using closed(1) by (auto simp: unsent2_def allExited_def list_all_iff)
  with fl sent show "mset (failedLinks s) = mset (reports2 ctx nt (started s))"
    by (simp add: invFlow_def)
qed

lemma reports2_filter:
  "reports2 ctx nt ps =
     map fst (filter (\<lambda>(url, t). inaccessible (linkAccessibilityChecker ctx nt url t)) ps)"
  unfolding reports2_def by (induction ps) (auto simp: sends_verdict)

lemma reports2_steady:
  assumes "ctx = None \<or> ctxDone ctx now" and "list_all (\<lambda>(url, t). now \<le> t) ps"
  shows "reports2 ctx nt ps = reports ctx nt now (map fst ps)"
  using assms(2)
proof (induction ps)
  case Nil
  show ?case by (simp add: reports2_def reports_def)
next
  case (Cons p ps)
  obtain url t where p: "p = (url, t)" by (cases p)
  with Cons.prems have "now \<le> t" by simp
  with assms(1) have "linkAccessibilityChecker ctx nt url t = linkAccessibilityChecker ctx nt url now"
    by (rule steady_verdict)
  moreover from Cons have "reports2 ctx nt ps = reports ctx nt now (map fst ps)" by simp
  ultimately show ?case
    using p by (simp add: reports2_def reports_def)
qed

lemma validate2_result:
  assumes "validateLinkAccessibility2 ctx nt analysis now sched = Some r"
  defines "pageLinks \<equiv> InternalLinks analysis @ ExternalLinks analysis"
  shows "verr r = None \<and>
    (\<exists>ts. length ts = length pageLinks \<and> list_all (\<lambda>t. now \<le> t) ts \<and>
       mset (links r) = mset (map fst (filter
         (\<lambda>(url, t). inaccessible (linkAccessibilityChecker ctx nt url t)) (zip pageLinks ts)))) \<and>
    (ctx = None \<or> ctxDone ctx now \<longrightarrow>
       mset (links r) = mset (filter
         (\<lambda>url. inaccessible (linkAccessibilityChecker ctx nt url now)) pageLinks))"
proof (cases "pageLinks = []")
  case True
  with assms(1) have "r = \<lparr>links = [], verr = None, spawned = 0\<rparr>"
    by (auto simp: validateLinkAccessibility2_def pageLinks_def)
  with True show ?thesis by simp
next
  case False
  let ?s = "run2 ctx nt sched (start2 pageLinks now)"
  from assms(1) False have ret: "pc ?s = Returned" and r: "links r = failedLinks ?s" "verr r = None"
    by (auto simp: validateLinkAccessibility2_def pageLinks_def Let_def split: if_splits)
  have inv: "inv2 ctx nt pageLinks now ?s"
    using False by (intro inv2_run inv2_start)
  note flow = Returned_flow [OF inv ret False]
  let ?ts = "map snd (started ?s)"
  have z: "zip pageLinks ?ts = started ?s"
    using flow(1) by (metis zip_map_fst_snd)
  have clock: "list_all (\<lambda>(url, t). now \<le> t) (started ?s)"
    using inv by (simp add: inv2_def invClock_def)
  have "length ?ts = length pageLinks"
    using flow(1) by (metis length_map)
  moreover have "list_all (\<lambda>t. now \<le> t) ?ts"
    using clock by (auto simp: list_all_iff)
  moreover have "mset (links r) = mset (map fst (filter
      (\<lambda>(url, t). inaccessible (linkAccessibilityChecker ctx nt url t)) (zip pageLinks ?ts)))"
    using flow(3) r(1) by (simp add: z reports2_filter)
  moreover have "mset (links r) = mset (filter
      (\<lambda>url. inaccessible (linkAccessibilityChecker ctx nt url now)) pageLinks)"
    if "ctx = None \<or> ctxDone ctx now"
    using flow(1,3) r(1) reports2_steady [OF that clock, of nt]
    by (simp add: reports_filter)
  ultimately show ?thesis
    using r(2) by blast
qed

section \<open>The claims about the validator\<close>

text \<open>
  Claim C1. Whatever the schedule, when the validator returns, the error is \<open>nil\<close> and the
  failed links are, as a multiset, exactly the links whose probe ended inaccessible. In
  \<open>network.go\<close> every probe starts with the call. In the pool a probe starts when a worker
  takes its link, at some instant \<open>ts ! j\<close> not before the call; with a context that is never
  cancelled, or is cancelled already at the call, the verdict of a probe does not depend on
  that instant. Every schedule can be continued to one under which the validator returns.
\<close>

theorem aggregate_accuracy:
  fixes analysis :: LinkAnalysis
  defines "pageLinks \<equiv> InternalLinks analysis @ ExternalLinks analysis"
  shows
    "(\<forall>sched r. validateLinkAccessibility ctx nt analysis now sched = Some r \<longrightarrow>
        verr r = None \<and>
        mset (links r) = mset (filter
          (\<lambda>url. inaccessible (linkAccessibilityChecker ctx nt url now)) pageLinks)) \<and>
     (\<forall>sched r. validateLinkAccessibility2 ctx nt analysis now sched = Some r \<longrightarrow>
        verr r = None \<and>
        (\<exists>ts. length ts = length pageLinks \<and> list_all (\<lambda>t. now \<le> t) ts \<and>
           mset (links r) = mset (map fst (filter
             (\<lambda>(url, t). inaccessible (linkAccessibilityChecker ctx nt url t))
             (zip pageLinks ts)))) \<and>
        (ctx = None \<or> ctxDone ctx now \<longrightarrow>
           mset (links r) = mset (filter
             (\<lambda>url. inaccessible (linkAccessibilityChecker ctx nt url now)) pageLinks))) \<and>
     (\<forall>sched. \<exists>more. validateLinkAccessibility ctx nt analysis now (sched @ more) \<noteq> None) \<and>
     (\<forall>sched. \<exists>more. validateLinkAccessibility2 ctx nt analysis now (sched @ more) \<noteq> None)"
proof (intro conjI allI impI)
  fix sched r
  assume "validateLinkAccessibility ctx nt analysis now sched = Some r"
  from validate1_result [OF this]
  show "verr r = None"
    and "mset (links r) = mset (filter
      (\<lambda>url. inaccessible (linkAccessibilityChecker ctx nt url now)) pageLinks)"
    by (simp_all add: pageLinks_def)
next
  fix sched r
  assume "validateLinkAccessibility2 ctx nt analysis now sched = Some r"
  note res = validate2_result [OF this, folded pageLinks_def]
  from res show "verr r = None" by (rule conjunct1)
  from res show "\<exists>ts. length ts = length pageLinks \<and> list_all (\<lambda>t. now \<le> t) ts \<and>
      mset (links r) = mset (map fst (filter
        (\<lambda>(url, t). inaccessible (linkAccessibilityChecker ctx nt url t)) (zip pageLinks ts)))"
    by (rule conjunct1 [OF conjunct2])
  assume "ctx = None \<or> ctxDone ctx now"
  with res show "mset (links r) = mset (filter
      (\<lambda>url. inaccessible (linkAccessibilityChecker ctx nt url now)) pageLinks)"
    by simp
next
  fix sched
  show "\<exists>more. validateLinkAccessibility ctx nt analysis now (sched @ more) \<noteq> None"
    by (rule validate1_returns)
next
  fix sched
  show "\<exists>more. validateLinkAccessibility2 ctx nt analysis now (sched @ more) \<noteq> None"
    by (rule validate2_returns)
qed

text \<open>
  The example of the spec: \<open>A\<close> always answers 200, \<open>B\<close> always 500, \<open>C\<close> refuses the
  connection. Under schedules that let \<open>C\<close> report first the failed links are \<open>{B, C}\<close>.
\<close>

theorem aggregate_accuracy_witness:
  "verr (the (validateLinkAccessibility None testNet testAnalysis 0 testSchedule)) = None \<and>
   mset (links (the (validateLinkAccessibility None testNet testAnalysis 0 testSchedule))) =
     {#''B'', ''C''#} \<and>
   verr (the (validateLinkAccessibility2 None testNet testAnalysis 0 testSchedule2)) = None \<and>
   mset (links (the (validateLinkAccessibility2 None testNet testAnalysis 0 testSchedule2))) =
     {#''B'', ''C''#}"
proof -
  have v: "inaccessible (linkAccessibilityChecker None testNet url 0) = (url \<noteq> ''A'')"
    if "url \<in> {''A'', ''B'', ''C''}" for url
    using that
    by (auto simp: trace_cases testNet_simps clientDo_def ctxDone_def success_def
        failTrace_def inaccessible_def)
  have f: "filter (\<lambda>url. inaccessible (linkAccessibilityChecker None testNet url 0))
      (InternalLinks testAnalysis @ ExternalLinks testAnalysis) = [''B'', ''C'']"
    by (simp add: testAnalysis_def v)
  note acc = aggregate_accuracy [of None testNet testAnalysis 0, unfolded f]
  from acc [THEN conjunct1] testSchedule_result have one:
    "verr (the (validateLinkAccessibility None testNet testAnalysis 0 testSchedule)) = None \<and>
     mset (links (the (validateLinkAccessibility None testNet testAnalysis 0 testSchedule))) =
       mset [''B'', ''C'']"
    by simp
  from acc [THEN conjunct2, THEN conjunct1] testSchedule2_result have two:
    "verr (the (validateLinkAccessibility2 None testNet testAnalysis 0 testSchedule2)) = None \<and>
     mset (links (the (validateLinkAccessibility2 None testNet testAnalysis 0 testSchedule2))) =
       mset [''B'', ''C'']"
    by simp
  from one two show ?thesis
    by simp
qed

text \<open>In \<open>network.go\<close> a call has as many goroutines as the page has links.\<close>

lemma fanout_size: "length (checkers (run js (start ctx nt pageLinks now))) = length pageLinks"
  using inv1_run [OF inv1_start, of ctx nt pageLinks now js] by (simp add: inv1_def)

text \<open>
  Claim C3 fails on \<open>network.go\<close>, which starts one goroutine for each link and knows no
  cap: for eleven links the call starts eleven goroutines, and \<open>min numWorkers 11\<close> is ten.
\<close>

theorem fanout_exceeds_cap:
  "spawned (the (validateLinkAccessibility None testNet elevenLinks 0 elevenSchedule)) = 11 \<and>
   min numWorkers (length (InternalLinks elevenLinks @ ExternalLinks elevenLinks)) = 10"
  by code_simp

text \<open>
  The pool of \<open>part_000\<close> does what the claim says: at every moment of every run on a page
  with links there are exactly \<open>min numWorkers (length pageLinks)\<close> workers, so never more
  than links, never more than \<open>numWorkers\<close>, and no more probes in flight than workers.
\<close>

lemma pool_size:
  fixes ctx :: cancelCtx and nt :: net and now :: int and sched :: "actor list"
  assumes "pageLinks \<noteq> []"
  defines "s \<equiv> run2 ctx nt sched (start2 pageLinks now)"
  shows "length (workers s) = min numWorkers (length pageLinks) \<and>
    length (filter inFlight (workers s)) \<le> min numWorkers (length pageLinks) \<and>
    length (workers s) \<le> length pageLinks \<and> length (workers s) \<le> numWorkers"
proof -
  have "inv2 ctx nt pageLinks now s"
    unfolding s_def using assms(1) by (intro inv2_run inv2_start)
  then have "length (workers s) = min numWorkers (length pageLinks)"
    by (simp add: inv2_def invShape_def)
  moreover have "length (filter inFlight (workers s)) \<le> length (workers s)"
    by (rule length_filter_le)
  ultimately show ?thesis by simp
qed

text \<open>A URL that cannot be made into a request is reported as often as the page links to it.\<close>

lemma count_reported_pairs:
  assumes "\<And>t. P url t"
  shows "length ts = length xs \<Longrightarrow>
    count (mset (map fst (filter (\<lambda>(u, t). P u t) (zip xs ts)))) url = count (mset xs) url"
proof (induction xs ts rule: list_induct2')
  case (4 x xs t ts)
  then show ?case
    using assms by (cases "x = url") auto
qed simp_all

lemma malformed_inaccessible:
  "malformed nt url \<Longrightarrow> inaccessible (linkAccessibilityChecker ctx nt url t)"
  by (simp add: linkAccessibilityChecker_def checkLoop_malformed inaccessible_def)

lemma malformed_counted:
  fixes analysis :: LinkAnalysis
  defines "pageLinks \<equiv> InternalLinks analysis @ ExternalLinks analysis"
  assumes "malformed nt url"
  shows "validateLinkAccessibility ctx nt analysis now sched = Some r \<Longrightarrow>
      count (mset (links r)) url = count (mset pageLinks) url"
    and "validateLinkAccessibility2 ctx nt analysis now sched2 = Some r2 \<Longrightarrow>
      count (mset (links r2)) url = count (mset pageLinks) url"
proof -
  assume "validateLinkAccessibility ctx nt analysis now sched = Some r"
  from validate1_result [OF this] malformed_inaccessible [OF assms(2), of ctx now]
  show "count (mset (links r)) url = count (mset pageLinks) url"
    by (simp add: pageLinks_def)
next
  assume "validateLinkAccessibility2 ctx nt analysis now sched2 = Some r2"
  from validate2_result [OF this, folded pageLinks_def]
  obtain ts where ts: "length ts = length pageLinks"
    "mset (links r2) = mset (map fst (filter
       (\<lambda>(url, t). inaccessible (linkAccessibilityChecker ctx nt url t)) (zip pageLinks ts)))"
    by blast
  have "count (mset (map fst (filter
      (\<lambda>(url, t). inaccessible (linkAccessibilityChecker ctx nt url t)) (zip pageLinks ts)))) url =
      count (mset pageLinks) url"
    using ts(1)
    by (rule count_reported_pairs
        [of "\<lambda>url t. inaccessible (linkAccessibilityChecker ctx nt url t)", rotated])
      (rule malformed_inaccessible [OF assms(2)])
  with ts(2)
  show "count (mset (links r2)) url = count (mset pageLinks) url"
    by simp
qed

lemma invalid_result:
  "validateLinkAccessibility None testNet invalidAnalysis 0 [0, 0] =
     Some \<lparr>links = [''ht tp://invalid-url''], verr = None, spawned = 1\<rparr>"
  by code_simp

lemma invalid_result2:
  "validateLinkAccessibility2 None testNet invalidAnalysis 0 invalidSchedule2 =
     Some \<lparr>links = [''ht tp://invalid-url''], verr = None, spawned = 2\<rparr>"
  by code_simp

text \<open>
  Claim C7. A URL of which no request can be built ends the probe in its first iteration:
  no request is made, no sleep is taken, and the URL is sent into the failure channel once.
  Under every schedule, the failed links that either revision of the validator returns
  hold the URL as many times as the page links to it: once for a link that occurs once.
\<close>

theorem malformed_url_terminal:
  fixes analysis :: LinkAnalysis
  defines "pageLinks \<equiv> InternalLinks analysis @ ExternalLinks analysis"
  assumes "malformed nt url"
  shows
    "linkAccessibilityChecker ctx nt url t = [Send url] \<and>
     attempts (linkAccessibilityChecker ctx nt url t) = 0 \<and>
     sleeps (linkAccessibilityChecker ctx nt url t) = [] \<and>
     sends (linkAccessibilityChecker ctx nt url t) = [url] \<and>
     (\<forall>sched r. validateLinkAccessibility ctx nt analysis now sched = Some r \<longrightarrow>
        count (mset (links r)) url = count (mset pageLinks) url) \<and>
     (\<forall>sched r. validateLinkAccessibility2 ctx nt analysis now sched = Some r \<longrightarrow>
        count (mset (links r)) url = count (mset pageLinks) url)"
proof -
  have "linkAccessibilityChecker ctx nt url t = [Send url]"
    using assms(2) by (simp add: linkAccessibilityChecker_def checkLoop_malformed)
  then show ?thesis
    using malformed_counted [OF assms(2), of ctx analysis now]
    by (simp add: attempts_def pageLinks_def)
qed

text \<open>The URL of the test \<open>InvalidURL\<close>, alone on its page.\<close>

theorem malformed_url_terminal_witness:
  "linkAccessibilityChecker None testNet ''ht tp://invalid-url'' 0 = [Send ''ht tp://invalid-url''] \<and>
   count (mset (links (the (validateLinkAccessibility None testNet invalidAnalysis 0 [0, 0]))))
     ''ht tp://invalid-url'' = 1 \<and>
   count (mset (links (the (validateLinkAccessibility2 None testNet invalidAnalysis 0
     invalidSchedule2)))) ''ht tp://invalid-url'' = 1"
proof -
  have m: "malformed testNet ''ht tp://invalid-url''"
    by (simp add: testNet_simps)
  have pl: "InternalLinks invalidAnalysis @ ExternalLinks invalidAnalysis = [''ht tp://invalid-url'']"
    by (simp add: invalidAnalysis_def)
  note all = malformed_url_terminal [OF m, of None 0 invalidAnalysis 0]
  from all [THEN conjunct1]
    all [THEN conjunct2, THEN conjunct2, THEN conjunct2, THEN conjunct2, THEN conjunct1,
      rule_format, OF invalid_result]
    all [THEN conjunct2, THEN conjunct2, THEN conjunct2, THEN conjunct2, THEN conjunct2,
      rule_format, OF invalid_result2]
  show ?thesis
    by (simp add: invalid_result invalid_result2 pl)
qed

text \<open>
  Claim C8. When the internal links followed by the external links are no link at all,
  both revisions return the empty slice and a \<open>nil\<close> error under every schedule, the empty
  one included, and have executed no \<open>go\<close> statement.
\<close>

theorem empty_link_set:
  assumes "InternalLinks analysis @ ExternalLinks analysis = []"
  shows "validateLinkAccessibility ctx nt analysis now sched =
      Some \<lparr>links = [], verr = None, spawned = 0\<rparr> \<and>
    validateLinkAccessibility2 ctx nt analysis now sched2 =
      Some \<lparr>links = [], verr = None, spawned = 0\<rparr>"
  using assms by (simp add: validateLinkAccessibility_def validateLinkAccessibility2_def)

text \<open>The call of the test \<open>NoLinks\<close>.\<close>

theorem empty_link_set_witness:
  "validateLinkAccessibility None testNet noLinks 0 [] =
      Some \<lparr>links = [], verr = None, spawned = 0\<rparr> \<and>
   validateLinkAccessibility2 None testNet noLinks 0 [] =
      Some \<lparr>links = [], verr = None, spawned = 0\<rparr>"
  using empty_link_set [of noLinks None testNet 0 "[]" "[]"] by (simp add: noLinks_def)



end
